theory Spec2Isabelle
  imports Main "HOL-Library.Word" "HOL-Library.Multiset"
begin

section \<open>Connectivity states and the state aggregator (balancer/balancer.go)\<close>

text \<open>
  Modelled from the spec: the declaration of \<open>connectivity.State\<close> is missing. The
  specification gives the health state as the enumeration Idle, Connecting, Ready,
  TransientFailure, Shutdown.
\<close>

datatype State = Idle | Connecting | Ready | TransientFailure | Shutdown

text \<open>
  \<open>ConnectivityStateEvaluator\<close>: two unsigned 64-bit counters. Go's \<open>uint64\<close> arithmetic
  wraps around, as the arithmetic of \<open>64 word\<close> does.
\<close>

record ConnectivityStateEvaluator =
  numReady :: "64 word"
  numConnecting :: "64 word"

text \<open>
  \<open>updateVal := 2*uint64(idx) - 1\<close>: for \<open>idx = 0\<close> the subtraction wraps to
  \<open>2^64 - 1\<close>, which acts as \<open>-1\<close> when added; for \<open>idx = 1\<close> it is \<open>1\<close>.
\<close>

definition updateVal :: "nat \<Rightarrow> 64 word" where
  "updateVal idx = 2 * of_nat idx - 1"

text \<open>The body of the loop over \<open>[oldState, newState]\<close>: the \<open>switch\<close> on the state.\<close>

fun updateCounters :: "ConnectivityStateEvaluator \<Rightarrow> nat \<times> State \<Rightarrow> ConnectivityStateEvaluator" where
  "updateCounters cse (idx, Ready) = cse\<lparr>numReady := numReady cse + updateVal idx\<rparr>"
| "updateCounters cse (idx, Connecting) = cse\<lparr>numConnecting := numConnecting cse + updateVal idx\<rparr>"
| "updateCounters cse (idx, _) = cse"

text \<open>The evaluation after the loop.\<close>

definition evaluate :: "ConnectivityStateEvaluator \<Rightarrow> State" where
  "evaluate cse =
     (if numReady cse > 0 then Ready
      else if numConnecting cse > 0 then Connecting
      else TransientFailure)"

text \<open>
  \<open>RecordTransition\<close> mutates the evaluator through its pointer receiver and returns the
  aggregated state; the model returns the updated evaluator with the state.
\<close>

definition RecordTransition ::
  "ConnectivityStateEvaluator \<Rightarrow> State \<Rightarrow> State \<Rightarrow> ConnectivityStateEvaluator \<times> State" where
  "RecordTransition cse oldState newState =
     (let cse' = foldl updateCounters cse (enumerate 0 [oldState, newState])
      in (cse', evaluate cse'))"

text \<open>
  A run of the aggregator: the caller reports transitions one handle at a time, as
  triples (handle, oldState, newState), and collects the state each call returns.
\<close>

type_synonym transition = "nat \<times> State \<times> State"

fun recordAll :: "ConnectivityStateEvaluator \<Rightarrow> transition list \<Rightarrow> State list" where
  "recordAll cse [] = []"
| "recordAll cse ((h, oldState, newState) # ts) =
     (case RecordTransition cse oldState newState of
        (cse', s) \<Rightarrow> s # recordAll cse' ts)"

subsection \<open>Reference: the naive full rescan\<close>

text \<open>
  The reference of the specification, written from its words and independent of the
  counters: the handles are the positions of a list of health states; the channel state is
  Ready if at least one handle is Ready, else Connecting if at least one is Connecting, else
  TransientFailure.
\<close>

definition rescan :: "State list \<Rightarrow> State" where
  "rescan sts =
     (if Ready \<in> set sts then Ready
      else if Connecting \<in> set sts then Connecting
      else TransientFailure)"

fun rescanAll :: "State list \<Rightarrow> transition list \<Rightarrow> State list" where
  "rescanAll sts [] = []"
| "rescanAll sts ((h, oldState, newState) # ts) =
     rescan (sts[h := newState]) # rescanAll (sts[h := newState]) ts"

text \<open>
  A sequence of reports is consistent with the handles' states when each report names an
  existing handle and its old state is the state that handle was last reported to enter
  (its initial state, for a first report).
\<close>

fun consistent :: "State list \<Rightarrow> transition list \<Rightarrow> bool" where
  "consistent sts [] = True"
| "consistent sts ((h, oldState, newState) # ts) =
     (h < length sts \<and> sts ! h = oldState \<and> consistent (sts[h := newState]) ts)"

text \<open>The counters hold the numbers of Ready and of Connecting handles.\<close>

definition countersAgree :: "ConnectivityStateEvaluator \<Rightarrow> State list \<Rightarrow> bool" where
  "countersAgree cse sts =
     (numReady cse = of_nat (count_list sts Ready) \<and>
      numConnecting cse = of_nat (count_list sts Connecting))"

section \<open>The policy registry (balancer/balancer.go)\<close>

text \<open>
  A \<open>Builder\<close> is an interface value; the registry uses its \<open>Name()\<close> only. The model
  keeps the name and an identity that tells two builders of one name apart.
\<close>

record Builder =
  builderId :: nat
  Name :: string

text \<open>
  \<open>strings.ToLower\<close> of the Go library, on strings of bytes. A string of ASCII bytes (all
  below \<open>utf8.RuneSelf = 128\<close>) is returned as it is when it has no letter \<open>A\<close> to
  \<open>Z\<close>, and with these letters moved to \<open>a\<close> to \<open>z\<close> otherwise. Any other string is
  handed to \<open>strings.Map(unicode.ToLower, s)\<close>, which lower-cases by the library's Unicode
  tables; that mapping is the parameter \<open>mapUnicode\<close> of the model.
\<close>

definition isASCII :: "string \<Rightarrow> bool" where
  "isASCII s = list_all (\<lambda>c. (of_char c :: nat) < 128) s"

definition hasUpper :: "string \<Rightarrow> bool" where
  "hasUpper s = list_ex (\<lambda>c. 65 \<le> (of_char c :: nat) \<and> (of_char c :: nat) \<le> 90) s"

definition toLowerByte :: "char \<Rightarrow> char" where
  "toLowerByte c =
     (if 65 \<le> (of_char c :: nat) \<and> (of_char c :: nat) \<le> 90
      then char_of ((of_char c :: nat) + 32) else c)"

definition ToLower :: "(string \<Rightarrow> string) \<Rightarrow> string \<Rightarrow> string" where
  "ToLower mapUnicode s =
     (if isASCII s then (if \<not> hasUpper s then s else map toLowerByte s)
      else mapUnicode s)"

text \<open>The process-wide map \<open>m\<close> is passed explicitly.\<close>

type_synonym registry = "string \<rightharpoonup> Builder"

definition Register :: "(string \<Rightarrow> string) \<Rightarrow> registry \<Rightarrow> Builder \<Rightarrow> registry" where
  "Register mapUnicode m b = m(ToLower mapUnicode (Name b) \<mapsto> b)"

text \<open>\<open>delete(m, name)\<close>: the key is the name as given.\<close>

definition unregisterForTesting :: "registry \<Rightarrow> string \<Rightarrow> registry" where
  "unregisterForTesting m name = m(name := None)"

text \<open>\<open>Get\<close> returns the builder, or \<open>nil\<close> (here \<open>None\<close>).\<close>

definition Get :: "(string \<Rightarrow> string) \<Rightarrow> registry \<Rightarrow> string \<Rightarrow> Builder option" where
  "Get mapUnicode m name =
     (case m (ToLower mapUnicode name) of Some b \<Rightarrow> Some b | None \<Rightarrow> None)"




text \<open>
  One entry of the library's Unicode tables, for use at concrete inputs: the lower case of
  U+212A KELVIN SIGN (in UTF-8 the bytes E2 84 AA) is the letter \<open>k\<close>. The mapping
  \<open>kelvinToLower\<close> stands for \<open>strings.Map(unicode.ToLower, s)\<close> on that string, the only
  string beyond ASCII that is evaluated in this theory.
\<close>

definition kelvinSign :: string where
  "kelvinSign = [CHR 0xE2, CHR 0x84, CHR 0xAA]"

definition kelvinToLower :: "string \<Rightarrow> string" where
  "kelvinToLower s = (if s = kelvinSign then ''k'' else map toLowerByte s)"

subsection \<open>Reference: equality up to ASCII case\<close>



section \<open>The sticky round-robin picker (customRoundrobin)\<close>

text \<open>
  A connection handle: an identity and the address of its connection
  (\<open>sc.GetAddrConnection().Addr\<close>).
\<close>

record addrConnection =
  Addr :: string

record SubConn =
  scId :: nat
  GetAddrConnection :: addrConnection

text \<open>
  The request context. \<open>metadata.FromOutgoingContextRaw(ctx)\<close> yields the outgoing
  metadata \<open>md\<close> (a map from key to values), the appended key-value slices \<open>added\<close>,
  and a flag (here: \<open>None\<close> when the context carries no outgoing metadata).
  \<open>ctx.Value(key)\<close> yields an untyped value, which the older \<open>Pick\<close> asserts to be a
  string.
\<close>

record rawMD =
  md :: "string \<rightharpoonup> string list"
  added :: "string list list"

datatype ctxValue = StringValue string | OtherValue

record Context =
  Value :: "string \<rightharpoonup> ctxValue"
  FromOutgoingContextRaw :: "rawMD option"

record PickInfo =
  FullMethodName :: string
  Ctx :: Context

datatype error = ErrNoSubConnAvailable | ErrTransientFailure | ErrBadResolverState

text \<open>\<open>PickResult\<close>: the chosen handle, \<open>nil\<close> being \<open>None\<close>. \<open>Done\<close> is never set.\<close>

record PickResult =
  SubConn :: "SubConn option"

text \<open>Run-time panics of Go that the picker's code can reach.\<close>

datatype panic = IndexOutOfRange | DivideByZero

definition customRoundrobinName :: string where
  "customRoundrobinName = ''customRoundrobin''"

definition OverWriteKeyName :: string where
  "OverWriteKeyName = ''lb-addr''"

text \<open>
  \<open>rrPicker\<close>: the immutable snapshot and the cursor, a Go \<open>int\<close>. The mutex is not
  modelled: every \<open>Pick\<close> runs wholly under it, so calls are taken one after another.
\<close>

record rrPicker =
  subConns :: "SubConn list"
  "next" :: int

text \<open>
  \<open>strings.Compare\<close>: the three-way comparison of two strings by bytes; 0 exactly for
  equal strings.
\<close>

fun Compare :: "string \<Rightarrow> string \<Rightarrow> int" where
  "Compare [] [] = 0"
| "Compare [] (b # bs) = - 1"
| "Compare (a # as) [] = 1"
| "Compare (a # as) (b # bs) =
     (if (of_char a :: nat) < of_char b then - 1
      else if (of_char b :: nat) < of_char a then 1
      else Compare as bs)"

text \<open>
  The inner loop of \<open>stickyKeyFromContext\<close>: \<open>for i := 0; i < len(ss)-1; i += 2\<close> reads
  the slice as key-value pairs and stops before a trailing single element.
\<close>

fun scanPairs :: "string \<Rightarrow> string list \<Rightarrow> string \<times> bool" where
  "scanPairs key (k # v # rest) = (if k = key then (v, True) else scanPairs key rest)"
| "scanPairs key _ = ('''', False)"

fun scanAdded :: "string \<Rightarrow> string list list \<Rightarrow> string \<times> bool" where
  "scanAdded key [] = ('''', False)"
| "scanAdded key (ss # rest) =
     (case scanPairs key ss of
        (v, True) \<Rightarrow> (v, True)
      | (_, False) \<Rightarrow> scanAdded key rest)"

definition stickyKeyFromContext :: "Context \<Rightarrow> string \<Rightarrow> string \<times> bool" where
  "stickyKeyFromContext ctx stickinessMDKey =
     (if stickinessMDKey = '''' then ('''', False)
      else case FromOutgoingContextRaw ctx of
        None \<Rightarrow> ('''', False)
      | Some raw \<Rightarrow>
          (case md raw stickinessMDKey of
             Some (v # vs) \<Rightarrow> (v, True)
           | _ \<Rightarrow> scanAdded stickinessMDKey (added raw)))"

text \<open>\<open>pi.Ctx.Value(OverWriteKeyName).(string)\<close> of the older \<open>Pick\<close>.\<close>

definition stringValue :: "Context \<Rightarrow> string \<Rightarrow> string \<times> bool" where
  "stringValue ctx key =
     (case Value ctx key of
        Some (StringValue s) \<Rightarrow> (s, True)
      | _ \<Rightarrow> ('''', False))"

text \<open>
  The loop over the snapshot: it runs to the end, and every match overwrites
  \<open>chosenSc\<close>.
\<close>

fun matchLoop :: "string \<Rightarrow> SubConn list \<Rightarrow> SubConn option \<Rightarrow> SubConn option" where
  "matchLoop overwriteAddr [] chosenSc = chosenSc"
| "matchLoop overwriteAddr (sc # scs) chosenSc =
     matchLoop overwriteAddr scs
       (if Compare (Addr (GetAddrConnection sc)) overwriteAddr = 0 then Some sc else chosenSc)"

text \<open>Go's \<open>%\<close> on \<open>int\<close> truncates towards zero: the sign follows the dividend.\<close>

definition goRem :: "int \<Rightarrow> int \<Rightarrow> int" where
  "goRem a b = sgn a * (\<bar>a\<bar> mod \<bar>b\<bar>)"

text \<open>
  The round-robin branch: \<open>chosenSc = p.subConns[p.next]\<close> panics when the cursor is
  out of range, and \<open>% len(p.subConns)\<close> would panic for an empty snapshot. The cursor
  is below the length when the sum \<open>p.next + 1\<close> is taken, so that sum never leaves the
  range of a Go \<open>int\<close>.
\<close>

definition roundRobin :: "rrPicker \<Rightarrow> panic + (SubConn option \<times> rrPicker)" where
  "roundRobin p =
     (if next p < 0 \<or> int (length (subConns p)) \<le> next p then Inl IndexOutOfRange
      else if length (subConns p) = 0 then Inl DivideByZero
      else Inr (Some (subConns p ! nat (next p)),
                p\<lparr>next := goRem (next p + 1) (int (length (subConns p)))\<rparr>))"

text \<open>
  \<open>Pick\<close> returns the pair of Go (result, error) and, in the model, the picker after the
  call. The error it returns is always \<open>nil\<close>.
\<close>

definition Pick :: "rrPicker \<Rightarrow> PickInfo \<Rightarrow> panic + ((PickResult \<times> error option) \<times> rrPicker)" where
  "Pick p pinfo =
     (case stickyKeyFromContext (Ctx pinfo) OverWriteKeyName of
        (overwriteAddr, True) \<Rightarrow>
          Inr ((\<lparr>SubConn = matchLoop overwriteAddr (subConns p) None\<rparr>, None), p)
      | (_, False) \<Rightarrow>
          (case roundRobin p of
             Inl e \<Rightarrow> Inl e
           | Inr (chosenSc, p') \<Rightarrow> Inr ((\<lparr>SubConn = chosenSc\<rparr>, None), p')))"

text \<open>The older \<open>Pick\<close> kept at the end of balancer.go differs in the key's source only.\<close>

definition PickValue :: "rrPicker \<Rightarrow> PickInfo \<Rightarrow> panic + ((PickResult \<times> error option) \<times> rrPicker)" where
  "PickValue p pinfo =
     (case stringValue (Ctx pinfo) OverWriteKeyName of
        (overwriteAddr, True) \<Rightarrow>
          Inr ((\<lparr>SubConn = matchLoop overwriteAddr (subConns p) None\<rparr>, None), p)
      | (_, False) \<Rightarrow>
          (case roundRobin p of
             Inl e \<Rightarrow> Inl e
           | Inr (chosenSc, p') \<Rightarrow> Inr ((\<lparr>SubConn = chosenSc\<rparr>, None), p')))"

text \<open>Successive \<open>Pick\<close> calls on one picker; a panic ends the run.\<close>

fun Picks :: "rrPicker \<Rightarrow> PickInfo list \<Rightarrow> panic + ((PickResult \<times> error option) list \<times> rrPicker)" where
  "Picks p [] = Inr ([], p)"
| "Picks p (pinfo # rest) =
     (case Pick p pinfo of
        Inl e \<Rightarrow> Inl e
      | Inr (r, p') \<Rightarrow>
          (case Picks p' rest of
             Inl e \<Rightarrow> Inl e
           | Inr (rs, p'') \<Rightarrow> Inr (r # rs, p'')))"

subsection \<open>Building a picker\<close>

text \<open>
  \<open>base.PickerBuildInfo\<close>: \<open>ReadySCs\<close> is a Go map from handle to its info. The list
  holds its entries in the order in which the \<open>range\<close> loop of \<open>Build\<close> meets them.
\<close>

record SubConnInfo =
  Address :: string

record PickerBuildInfo =
  ReadySCs :: "(SubConn \<times> SubConnInfo) list"

text \<open>
  Modelled from the spec: \<open>base.NewErrPicker\<close> and the picker it returns are missing.
  The specification says of that picker that its \<open>Select\<close> always returns the error it
  was built with (the no-connection-available error, for an empty Ready set).
\<close>

datatype Picker = errPicker error | roundRobinPicker rrPicker

definition NewErrPicker :: "error \<Rightarrow> Picker" where
  "NewErrPicker err = errPicker err"

text \<open>
  Modelled from the spec: \<open>grpcrand.Intn\<close> is missing. The specification says the
  starting cursor is chosen at random over the sequence length; \<open>rnd\<close> is the
  generator's draw, reduced to \<open>[0, n)\<close>.
\<close>

definition Intn :: "nat \<Rightarrow> nat \<Rightarrow> int" where
  "Intn rnd n = int (rnd mod n)"

text \<open>The loop \<open>for sc := range info.ReadySCs { scs = append(scs, sc) }\<close>.\<close>

definition collect :: "(SubConn \<times> SubConnInfo) list \<Rightarrow> SubConn list" where
  "collect entries = foldl (\<lambda>scs entry. scs @ [fst entry]) [] entries"

definition Build :: "PickerBuildInfo \<Rightarrow> nat \<Rightarrow> Picker" where
  "Build info rnd =
     (if length (ReadySCs info) = 0 then NewErrPicker ErrNoSubConnAvailable
      else let scs = collect (ReadySCs info)
           in roundRobinPicker \<lparr>subConns = scs, next = Intn rnd (length scs)\<rparr>)"

text \<open>\<open>Pick\<close> through the \<open>Picker\<close> interface.\<close>

fun PickerPick :: "Picker \<Rightarrow> PickInfo \<Rightarrow> panic + ((PickResult \<times> error option) \<times> Picker)" where
  "PickerPick (errPicker err) pinfo = Inr ((\<lparr>SubConn = None\<rparr>, Some err), errPicker err)"
| "PickerPick (roundRobinPicker p) pinfo =
     (case Pick p pinfo of
        Inl e \<Rightarrow> Inl e
      | Inr (r, p') \<Rightarrow> Inr (r, roundRobinPicker p'))"

text \<open>Requests and handles used in the statements below.\<close>

definition noKey :: PickInfo where
  "noKey = \<lparr>FullMethodName = ''/service/Method'',
            Ctx = \<lparr>Value = Map.empty, FromOutgoingContextRaw = None\<rparr>\<rparr>"

definition withKey :: "string \<Rightarrow> PickInfo" where
  "withKey a =
     \<lparr>FullMethodName = ''/service/Method'',
      Ctx = \<lparr>Value = [OverWriteKeyName \<mapsto> StringValue a],
             FromOutgoingContextRaw = Some \<lparr>md = [OverWriteKeyName \<mapsto> [a]], added = []\<rparr>\<rparr>\<rparr>"

definition mkSubConn :: "nat \<Rightarrow> string \<Rightarrow> SubConn" where
  "mkSubConn i a = \<lparr>scId = i, GetAddrConnection = \<lparr>Addr = a\<rparr>\<rparr>"

text \<open>Notions used in the statements about the picker.\<close>

definition addrOf :: "SubConn \<Rightarrow> string" where
  "addrOf sc = Addr (GetAddrConnection sc)"

definition matching :: "string \<Rightarrow> SubConn list \<Rightarrow> SubConn list" where
  "matching k scs = filter (\<lambda>sc. addrOf sc = k) scs"

definition cursorInRange :: "rrPicker \<Rightarrow> bool" where
  "cursorInRange p = (0 \<le> next p \<and> next p < int (length (subConns p)))"

definition withoutKey :: "PickInfo \<Rightarrow> bool" where
  "withoutKey pinfo = (\<not> snd (stickyKeyFromContext (Ctx pinfo) OverWriteKeyName))"

definition picked :: "SubConn \<Rightarrow> PickResult \<times> error option" where
  "picked sc = (\<lparr>SubConn = Some sc\<rparr>, None)"

definition scA :: SubConn where
  "scA = mkSubConn 0 ''10.0.0.1:443''"

definition scB :: SubConn where
  "scB = mkSubConn 1 ''10.0.0.2:443''"

definition scC :: SubConn where
  "scC = mkSubConn 2 ''10.0.0.3:443''"

text \<open>A second handle at the address of \<open>scA\<close>.\<close>

definition scA' :: SubConn where
  "scA' = mkSubConn 3 ''10.0.0.1:443''"

section \<open>Properties of the state aggregator\<close>

lemma updateVal_0: "updateVal 0 = - 1"
  by (simp add: updateVal_def)

lemma updateVal_1: "updateVal (Suc 0) = 1"
  by (simp add: updateVal_def)

lemma RecordTransition_numReady:
  "numReady (fst (RecordTransition cse old new)) =
     numReady cse + (if new = Ready then 1 else 0) - (if old = Ready then 1 else 0)"
  by (cases old; cases new) (simp_all add: RecordTransition_def Let_def updateVal_0 updateVal_1)

lemma RecordTransition_numConnecting:
  "numConnecting (fst (RecordTransition cse old new)) =
     numConnecting cse + (if new = Connecting then 1 else 0) - (if old = Connecting then 1 else 0)"
  by (cases old; cases new) (simp_all add: RecordTransition_def Let_def updateVal_0 updateVal_1)

lemma RecordTransition_snd:
  "snd (RecordTransition cse old new) = evaluate (fst (RecordTransition cse old new))"
  by (simp add: RecordTransition_def Let_def)

lemma unat_delta:
  "unat (x + (if a then 1 else 0) - (if b then 1 else 0) :: 64 word) =
   (unat x + (if a then 1 else 0) + (if b then 2 ^ 64 - 1 else 0)) mod 2 ^ 64"
proof -
  have lt: "unat x < 2 ^ 64"
    using unsigned_less [of x, where 'a = nat] by simp
  have m1: "unat (- 1 :: 64 word) = 2 ^ 64 - 1"
    by (simp add: unsigned_minus_1_eq_mask mask_eq_exp_minus_1)
  have minus1: "unat (x - 1) = (unat x + (2 ^ 64 - 1)) mod 2 ^ 64"
  proof -
    have "x - 1 = x + (- 1)" by simp
    also have "unat \<dots> = (unat x + unat (- 1 :: 64 word)) mod 2 ^ 64"
      by (simp only: unat_word_ariths) simp
    finally show ?thesis by (simp add: m1)
  qed
  have plus1: "unat (x + 1) = (unat x + 1) mod 2 ^ 64"
    by (simp add: unat_word_ariths)
  have pm: "(unat x + 1 + (2 ^ 64 - 1)) mod 2 ^ 64 = unat x"
    using lt by simp
  have idle: "unat x mod 2 ^ 64 = unat x"
    using lt by simp
  show ?thesis
  proof (cases a)
    case True
    then show ?thesis using plus1 pm by (cases b) simp_all
  next
    case False
    then show ?thesis using minus1 idle by (cases b) simp_all
  qed
qed

text \<open>
  Claim C6. For every pair (old, new), \<open>RecordTransition\<close> changes the ready counter by
  +1 if new is Ready and by -1 if old is Ready, and the connecting counter likewise for
  Connecting; the -1 is the addition of \<open>2^64 - 1\<close> modulo \<open>2^64\<close> on the unsigned
  counters. States other than Ready and Connecting leave both counters as they are, and
  \<open>RecordTransition(s, s)\<close> leaves both counters at their prior values.
\<close>

theorem RecordTransition_counter_deltas:
  "numReady (fst (RecordTransition cse old new)) =
     numReady cse + (if new = Ready then 1 else 0) - (if old = Ready then 1 else 0)
   \<and> numConnecting (fst (RecordTransition cse old new)) =
     numConnecting cse + (if new = Connecting then 1 else 0) - (if old = Connecting then 1 else 0)
   \<and> unat (numReady (fst (RecordTransition cse old new))) =
     (unat (numReady cse) + (if new = Ready then 1 else 0) + (if old = Ready then 2 ^ 64 - 1 else 0))
       mod 2 ^ 64
   \<and> unat (numConnecting (fst (RecordTransition cse old new))) =
     (unat (numConnecting cse) + (if new = Connecting then 1 else 0) +
        (if old = Connecting then 2 ^ 64 - 1 else 0)) mod 2 ^ 64
   \<and> (old \<noteq> Ready \<and> old \<noteq> Connecting \<and> new \<noteq> Ready \<and> new \<noteq> Connecting \<longrightarrow>
        fst (RecordTransition cse old new) = cse)
   \<and> fst (RecordTransition cse s s) = cse"
proof -
  have a: "numReady (fst (RecordTransition cse old new)) =
     numReady cse + (if new = Ready then 1 else 0) - (if old = Ready then 1 else 0)"
    by (rule RecordTransition_numReady)
  have b: "numConnecting (fst (RecordTransition cse old new)) =
     numConnecting cse + (if new = Connecting then 1 else 0) - (if old = Connecting then 1 else 0)"
    by (rule RecordTransition_numConnecting)
  have c: "unat (numReady (fst (RecordTransition cse old new))) =
     (unat (numReady cse) + (if new = Ready then 1 else 0) + (if old = Ready then 2 ^ 64 - 1 else 0))
       mod 2 ^ 64"
    unfolding a by (rule unat_delta)
  have d: "unat (numConnecting (fst (RecordTransition cse old new))) =
     (unat (numConnecting cse) + (if new = Connecting then 1 else 0) +
        (if old = Connecting then 2 ^ 64 - 1 else 0)) mod 2 ^ 64"
    unfolding b by (rule unat_delta)
  have e: "old \<noteq> Ready \<and> old \<noteq> Connecting \<and> new \<noteq> Ready \<and> new \<noteq> Connecting \<longrightarrow>
        fst (RecordTransition cse old new) = cse"
    by (cases old; cases new) (simp_all add: RecordTransition_def Let_def)
  have f: "fst (RecordTransition cse s s) = cse"
    by (cases s) (simp_all add: RecordTransition_def Let_def updateVal_0 updateVal_1)
  from a b c d e f show ?thesis by blast
qed

theorem RecordTransition_counter_deltas_witness:
  "Idle \<noteq> Ready \<and> Idle \<noteq> Connecting \<and> Shutdown \<noteq> Ready \<and> Shutdown \<noteq> Connecting
   \<and> fst (RecordTransition \<lparr>numReady = 7, numConnecting = 2\<rparr> Idle Shutdown) =
       \<lparr>numReady = 7, numConnecting = 2\<rparr>
   \<and> fst (RecordTransition \<lparr>numReady = 7, numConnecting = 2\<rparr> Ready Ready) =
       \<lparr>numReady = 7, numConnecting = 2\<rparr>
   \<and> unat (numReady (fst (RecordTransition \<lparr>numReady = 0, numConnecting = 0\<rparr> Ready Idle))) =
       18446744073709551615"
  using RecordTransition_counter_deltas [of "\<lparr>numReady = 7, numConnecting = 2\<rparr>" Idle Shutdown Ready]
    RecordTransition_counter_deltas [of "\<lparr>numReady = 0, numConnecting = 0\<rparr>" Ready Idle Idle]
  by (simp add: unsigned_minus_1_eq_mask mask_eq_exp_minus_1)

subsection \<open>The counters against the full rescan\<close>

lemma count_list_update:
  "i < length xs \<Longrightarrow>
   count_list (xs[i := v]) s + (if xs ! i = s then 1 else 0) =
   count_list xs s + (if v = s then 1 else 0)"
proof (induction xs arbitrary: i)
  case Nil
  then show ?case by simp
next
  case (Cons x xs)
  show ?case
  proof (cases i)
    case 0
    then show ?thesis by simp
  next
    case (Suc j)
    with Cons.prems have "j < length xs" by simp
    from Cons.IH [OF this] Suc show ?thesis by (auto split: if_splits)
  qed
qed

lemma of_nat_count_update:
  assumes "i < length xs"
  shows "(of_nat (count_list (xs[i := v]) s) :: 64 word) =
         of_nat (count_list xs s) + (if v = s then 1 else 0) - (if xs ! i = s then 1 else 0)"
proof -
  have "(of_nat (count_list (xs[i := v]) s + (if xs ! i = s then 1 else 0)) :: 64 word) =
        of_nat (count_list xs s + (if v = s then 1 else 0))"
    using count_list_update [OF assms, of v s] by simp
  then show ?thesis by (auto split: if_splits simp: algebra_simps)
qed

lemma countersAgree_step:
  assumes "countersAgree cse sts" and "h < length sts" and "sts ! h = old"
  shows "countersAgree (fst (RecordTransition cse old new)) (sts[h := new])"
  using assms
  by (simp add: countersAgree_def RecordTransition_numReady RecordTransition_numConnecting
      of_nat_count_update)

lemma count_list_pos_iff: "0 < count_list xs s \<longleftrightarrow> s \<in> set xs"
  by (induction xs) auto

text \<open>Below \<open>2^64\<close> handles a counter is positive exactly when some handle is counted.\<close>

lemma word_of_count_pos:
  assumes "length xs < 2 ^ 64"
  shows "(0 :: 64 word) < of_nat (count_list xs s) \<longleftrightarrow> s \<in> set xs"
proof -
  have "count_list xs s \<le> length xs" by (rule count_le_length)
  with assms have "count_list xs s < 2 ^ 64" by simp
  then have "(of_nat (count_list xs s) :: 64 word) = 0 \<longleftrightarrow> count_list xs s = 0"
    by (auto simp: of_nat_0)
  then show ?thesis
    using count_list_pos_iff [of xs s] by (simp add: word_gt_0)
qed

lemma evaluate_rescan:
  assumes "countersAgree cse sts" and "length sts < 2 ^ 64"
  shows "evaluate cse = rescan sts"
  using assms by (simp add: evaluate_def rescan_def countersAgree_def word_of_count_pos)

text \<open>A fresh evaluator (Go's zero value) agrees with handles that are all Idle.\<close>

lemma countersAgree_fresh:
  "countersAgree \<lparr>numReady = 0, numConnecting = 0\<rparr> (replicate n Idle)"
  by (induction n) (simp_all add: countersAgree_def)

text \<open>
  Claim C2. Take handles in known initial states that the counters reflect (a fresh
  evaluator with all handles Idle, for one), fewer than \<open>2^64\<close> of them. For every
  sequence of reports in which each handle's old state is the state it was last reported
  to enter, the states that the successive \<open>RecordTransition\<close> calls return are the states
  that the full rescan of all handles computes after each report: Ready if at least one
  handle is Ready, else Connecting if at least one is Connecting, else TransientFailure.
\<close>

theorem RecordTransition_equals_rescan:
  assumes "length sts < 2 ^ 64" and "countersAgree cse sts" and "consistent sts ts"
  shows "recordAll cse ts = rescanAll sts ts"
  using assms
proof (induction ts arbitrary: cse sts)
  case Nil
  then show ?case by simp
next
  case (Cons t ts)
  obtain h old new where t: "t = (h, old, new)" by (cases t)
  let ?cse' = "fst (RecordTransition cse old new)"
  let ?sts' = "sts[h := new]"
  from Cons.prems t have h: "h < length sts" and old: "sts ! h = old"
    and rest: "consistent ?sts' ts" by simp_all
  have agree: "countersAgree ?cse' ?sts'"
    by (rule countersAgree_step [OF Cons.prems(2) h old])
  have len: "length ?sts' < 2 ^ 64" using Cons.prems(1) by simp
  have "snd (RecordTransition cse old new) = rescan ?sts'"
    by (simp add: RecordTransition_snd evaluate_rescan [OF agree len])
  moreover have "recordAll ?cse' ts = rescanAll ?sts' ts"
    by (rule Cons.IH [OF len agree rest])
  ultimately show ?case by (cases "RecordTransition cse old new") (simp add: t)
qed

theorem RecordTransition_equals_rescan_witness:
  "length [Idle, Idle, Idle] < 2 ^ 64
   \<and> countersAgree \<lparr>numReady = 0, numConnecting = 0\<rparr> [Idle, Idle, Idle]
   \<and> consistent [Idle, Idle, Idle]
       [(0, Idle, Connecting), (1, Idle, Ready), (0, Connecting, TransientFailure),
        (1, Ready, Shutdown), (2, Idle, Idle)]
   \<and> recordAll \<lparr>numReady = 0, numConnecting = 0\<rparr>
       [(0, Idle, Connecting), (1, Idle, Ready), (0, Connecting, TransientFailure),
        (1, Ready, Shutdown), (2, Idle, Idle)] =
     rescanAll [Idle, Idle, Idle]
       [(0, Idle, Connecting), (1, Idle, Ready), (0, Connecting, TransientFailure),
        (1, Ready, Shutdown), (2, Idle, Idle)]
   \<and> rescanAll [Idle, Idle, Idle]
       [(0, Idle, Connecting), (1, Idle, Ready), (0, Connecting, TransientFailure),
        (1, Ready, Shutdown), (2, Idle, Idle)] =
     [Connecting, Ready, Ready, TransientFailure, TransientFailure]"
proof -
  have l: "length [Idle, Idle, Idle] < 2 ^ 64" by simp
  have a: "countersAgree \<lparr>numReady = 0, numConnecting = 0\<rparr> [Idle, Idle, Idle]"
    by (simp add: countersAgree_def)
  have c: "consistent [Idle, Idle, Idle]
       [(0, Idle, Connecting), (1, Idle, Ready), (0, Connecting, TransientFailure),
        (1, Ready, Shutdown), (2, Idle, Idle)]"
    by simp
  have r: "rescanAll [Idle, Idle, Idle]
       [(0, Idle, Connecting), (1, Idle, Ready), (0, Connecting, TransientFailure),
        (1, Ready, Shutdown), (2, Idle, Idle)] =
     [Connecting, Ready, Ready, TransientFailure, TransientFailure]"
    by (simp add: rescan_def)
  from l a c r RecordTransition_equals_rescan [OF l a c] show ?thesis by blast
qed

section \<open>Properties of the registry\<close>






lemma no_upper_unchanged: "\<not> hasUpper s \<Longrightarrow> map toLowerByte s = s"
  by (induction s) (auto simp: hasUpper_def toLowerByte_def)

text \<open>On ASCII strings the library's mapping is not reached.\<close>

lemma ToLower_ASCII: "isASCII s \<Longrightarrow> ToLower mapUnicode s = map toLowerByte s"
  by (simp add: ToLower_def no_upper_unchanged)











text \<open>Removal takes the key as given: a name that is not lower-cased removes nothing.\<close>

lemma unregister_not_folded:
  "Get kelvinToLower
     (unregisterForTesting
        (Register kelvinToLower Map.empty \<lparr>builderId = 1, Name = ''customRoundrobin''\<rparr>)
        ''customRoundrobin'') ''customRoundrobin'' =
   Some \<lparr>builderId = 1, Name = ''customRoundrobin''\<rparr>"
proof -
  have "map toLowerByte ''customRoundrobin'' = ''customroundrobin''" by code_simp
  moreover have "isASCII ''customRoundrobin''" by (simp add: isASCII_def)
  ultimately have "ToLower kelvinToLower ''customRoundrobin'' = ''customroundrobin''"
    by (simp add: ToLower_ASCII)
  then show ?thesis by (simp add: Get_def unregisterForTesting_def Register_def)
qed

section \<open>Properties of the picker\<close>

lemma Compare_eq_0: "Compare a b = 0 \<longleftrightarrow> a = b"
proof (induction a b rule: Compare.induct)
  case (4 a as b bs)
  have "of_char a = (of_char b :: nat) \<longleftrightarrow> a = b" by simp
  with 4 show ?case by (auto simp: not_less)
qed simp_all

lemma matchLoop_matching:
  "matchLoop k scs chosen =
     (if matching k scs = [] then chosen else Some (last (matching k scs)))"
  by (induction scs arbitrary: chosen) (simp_all add: matching_def addrOf_def Compare_eq_0)

lemma OverWriteKeyName_nonempty: "OverWriteKeyName \<noteq> ''''"
  by (simp add: OverWriteKeyName_def)

lemma sticky_noKey: "stickyKeyFromContext (Ctx noKey) OverWriteKeyName = ('''', False)"
  by (simp add: stickyKeyFromContext_def noKey_def)

lemma sticky_withKey: "stickyKeyFromContext (Ctx (withKey a)) OverWriteKeyName = (a, True)"
  by (simp add: stickyKeyFromContext_def withKey_def OverWriteKeyName_nonempty)

lemma stringValue_noKey: "stringValue (Ctx noKey) OverWriteKeyName = ('''', False)"
  by (simp add: stringValue_def noKey_def)

lemma stringValue_withKey: "stringValue (Ctx (withKey a)) OverWriteKeyName = (a, True)"
  by (simp add: stringValue_def withKey_def)

lemma Pick_key:
  "stickyKeyFromContext (Ctx pinfo) OverWriteKeyName = (k, True) \<Longrightarrow>
   Pick p pinfo = Inr ((\<lparr>SubConn = matchLoop k (subConns p) None\<rparr>, None), p)"
  by (simp add: Pick_def)

lemma PickValue_key:
  "stringValue (Ctx pinfo) OverWriteKeyName = (k, True) \<Longrightarrow>
   PickValue p pinfo = Inr ((\<lparr>SubConn = matchLoop k (subConns p) None\<rparr>, None), p)"
  by (simp add: PickValue_def)

lemma goRem_nonneg: "0 \<le> a \<Longrightarrow> 0 < b \<Longrightarrow> goRem a b = a mod b"
  by (cases "a = 0") (simp_all add: goRem_def)

lemma roundRobin_inRange:
  assumes "cursorInRange p"
  shows "roundRobin p =
     Inr (Some (subConns p ! nat (next p)),
          p\<lparr>next := (next p + 1) mod int (length (subConns p))\<rparr>)"
proof -
  from assms have a: "0 \<le> next p" and b: "next p < int (length (subConns p))"
    by (simp_all add: cursorInRange_def)
  have c: "subConns p \<noteq> []"
    using a b by (cases "subConns p") simp_all
  have "goRem (next p + 1) (int (length (subConns p))) = (next p + 1) mod int (length (subConns p))"
    using a b by (intro goRem_nonneg) linarith+
  with a b c show ?thesis by (simp add: roundRobin_def)
qed

text \<open>Without the guard of \<open>Build\<close>, a picker over no handle would panic.\<close>

lemma roundRobin_empty: "roundRobin \<lparr>subConns = [], next = c\<rparr> = Inl IndexOutOfRange"
  by (auto simp: roundRobin_def)

lemma Pick_noKey:
  assumes "withoutKey pinfo" and "cursorInRange p"
  shows "Pick p pinfo =
     Inr (picked (subConns p ! nat (next p)),
          p\<lparr>next := (next p + 1) mod int (length (subConns p))\<rparr>)"
proof -
  obtain v where "stickyKeyFromContext (Ctx pinfo) OverWriteKeyName = (v, False)"
    using assms(1) by (cases "stickyKeyFromContext (Ctx pinfo) OverWriteKeyName") (simp add: withoutKey_def)
  then show ?thesis
    by (simp add: Pick_def roundRobin_inRange [OF assms(2)] picked_def)
qed

lemma cursorInRange_step:
  "cursorInRange p \<Longrightarrow> cursorInRange (p\<lparr>next := (next p + 1) mod int (length (subConns p))\<rparr>)"
proof -
  assume "cursorInRange p"
  then have "0 < int (length (subConns p))"
    unfolding cursorInRange_def by linarith
  then show ?thesis by (simp add: cursorInRange_def)
qed

lemma int_succ_mod: "(int c + 1) mod int n = int ((c + 1) mod n)"
  by (simp add: zmod_int add.commute)

lemma Picks_noKey_from:
  "\<forall>pinfo \<in> set reqs. withoutKey pinfo \<Longrightarrow> c < length scs \<Longrightarrow>
   Picks \<lparr>subConns = scs, next = int c\<rparr> reqs =
     Inr (map (\<lambda>i. picked (scs ! ((c + i) mod length scs))) [0..<length reqs],
          \<lparr>subConns = scs, next = int ((c + length reqs) mod length scs)\<rparr>)"
proof (induction reqs arbitrary: c)
  case Nil
  then show ?case by simp
next
  case (Cons r reqs)
  let ?N = "length scs"
  let ?c' = "(c + 1) mod ?N"
  have N: "0 < ?N" using Cons.prems(2) by (cases scs) simp_all
  have r: "withoutKey r" and rest: "\<forall>pinfo \<in> set reqs. withoutKey pinfo"
    using Cons.prems(1) by simp_all
  have inr: "cursorInRange \<lparr>subConns = scs, next = int c\<rparr>"
    using Cons.prems(2) by (simp add: cursorInRange_def)
  have step: "Pick \<lparr>subConns = scs, next = int c\<rparr> r =
      Inr (picked (scs ! c), \<lparr>subConns = scs, next = int ?c'\<rparr>)"
    using Pick_noKey [OF r inr] by (simp add: int_succ_mod)
  have c': "?c' < ?N" using N by simp
  have idx: "(?c' + i) mod ?N = (c + Suc i) mod ?N" for i
    by (simp add: mod_add_left_eq)
  have IH: "Picks \<lparr>subConns = scs, next = int ?c'\<rparr> reqs =
     Inr (map (\<lambda>i. picked (scs ! ((c + Suc i) mod ?N))) [0..<length reqs],
          \<lparr>subConns = scs, next = int ((c + Suc (length reqs)) mod ?N)\<rparr>)"
    using Cons.IH [OF rest c'] by (simp only: idx)
  have c0: "c mod ?N = c" using Cons.prems(2) by simp
  show ?case
    by (simp only: Picks.simps step IH sum.case prod.case length_Cons map_upt_Suc)
       (simp add: c0)
qed

lemma map_nth_rotate:
  "c < length xs \<Longrightarrow> map (\<lambda>i. xs ! ((c + i) mod length xs)) [0..<length xs] = rotate c xs"
  by (rule nth_equalityI) (simp_all add: nth_rotate)

lemma Picks_full_round:
  assumes "\<forall>pinfo \<in> set reqs. withoutKey pinfo" and "c < length scs"
    and "length reqs = length scs"
  shows "Picks \<lparr>subConns = scs, next = int c\<rparr> reqs =
     Inr (map picked (rotate c scs), \<lparr>subConns = scs, next = int c\<rparr>)"
proof -
  have "map (\<lambda>i. picked (scs ! ((c + i) mod length scs))) [0..<length scs] =
        map picked (map (\<lambda>i. scs ! ((c + i) mod length scs)) [0..<length scs])"
    by simp
  also have "\<dots> = map picked (rotate c scs)"
    by (simp only: map_nth_rotate [OF assms(2)])
  finally have m: "map (\<lambda>i. picked (scs ! ((c + i) mod length scs))) [0..<length scs] =
        map picked (rotate c scs)" .
  have e: "(c + length scs) mod length scs = c" using assms(2) by simp
  show ?thesis
    using Picks_noKey_from [OF assms(1,2)] by (simp only: assms(3) m e)
qed

lemma mset_rotate1_eq: "mset (rotate1 xs) = mset xs"
  by (cases xs) simp_all

lemma mset_rotate_eq: "mset (rotate n xs) = mset xs"
  by (induction n) (simp_all add: mset_rotate1_eq)

lemma rrPicker_cursor: "cursorInRange p \<Longrightarrow> p = \<lparr>subConns = subConns p, next = int (nat (next p))\<rparr>"
  by (simp add: cursorInRange_def)

lemma cursor_nat_less: "cursorInRange p \<Longrightarrow> nat (next p) < length (subConns p)"
  unfolding cursorInRange_def by linarith

text \<open>
  Claim C4. For every snapshot of \<open>N > 0\<close> handles and every cursor in \<open>[0, N)\<close>, a
  \<open>Pick\<close> without affinity key returns the handle at the cursor and moves the cursor on
  by one modulo \<open>N\<close>; \<open>N\<close> such calls in a row return the snapshot rotated by the
  cursor, which holds every handle as often as the snapshot does (once, for a snapshot of
  distinct handles), and bring the cursor back to where it was.
\<close>

theorem Pick_round_robin:
  assumes "cursorInRange p"
  shows "(withoutKey pinfo \<longrightarrow>
            Pick p pinfo =
              Inr (picked (subConns p ! nat (next p)),
                   p\<lparr>next := (next p + 1) mod int (length (subConns p))\<rparr>))
         \<and> ((\<forall>r \<in> set reqs. withoutKey r) \<and> length reqs = length (subConns p) \<longrightarrow>
              Picks p reqs = Inr (map picked (rotate (nat (next p)) (subConns p)), p))
         \<and> mset (rotate (nat (next p)) (subConns p)) = mset (subConns p)
         \<and> (distinct (subConns p) \<longrightarrow> distinct (rotate (nat (next p)) (subConns p)))"
proof -
  have one: "withoutKey pinfo \<longrightarrow>
            Pick p pinfo =
              Inr (picked (subConns p ! nat (next p)),
                   p\<lparr>next := (next p + 1) mod int (length (subConns p))\<rparr>)"
    using Pick_noKey [OF _ assms] by blast
  have two: "(\<forall>r \<in> set reqs. withoutKey r) \<and> length reqs = length (subConns p) \<longrightarrow>
              Picks p reqs = Inr (map picked (rotate (nat (next p)) (subConns p)), p)"
  proof
    assume a: "(\<forall>r \<in> set reqs. withoutKey r) \<and> length reqs = length (subConns p)"
    have "Picks \<lparr>subConns = subConns p, next = int (nat (next p))\<rparr> reqs =
          Inr (map picked (rotate (nat (next p)) (subConns p)),
               \<lparr>subConns = subConns p, next = int (nat (next p))\<rparr>)"
      using a cursor_nat_less [OF assms] by (intro Picks_full_round) simp_all
    then show "Picks p reqs = Inr (map picked (rotate (nat (next p)) (subConns p)), p)"
      using rrPicker_cursor [OF assms] by simp
  qed
  have three: "mset (rotate (nat (next p)) (subConns p)) = mset (subConns p)"
    by (rule mset_rotate_eq)
  have four: "distinct (subConns p) \<longrightarrow> distinct (rotate (nat (next p)) (subConns p))"
    by simp
  from one two three four show ?thesis by blast
qed

lemma noKey_withoutKey: "withoutKey noKey"
  by (simp add: withoutKey_def sticky_noKey)

theorem Pick_round_robin_witness:
  "cursorInRange \<lparr>subConns = [scA, scB, scC], next = 1\<rparr>
   \<and> withoutKey noKey
   \<and> length [noKey, noKey, noKey] = length (subConns \<lparr>subConns = [scA, scB, scC], next = 1\<rparr>)
   \<and> distinct (subConns \<lparr>subConns = [scA, scB, scC], next = 1\<rparr>)
   \<and> Pick \<lparr>subConns = [scA, scB, scC], next = 1\<rparr> noKey =
       Inr (picked scB, \<lparr>subConns = [scA, scB, scC], next = 2\<rparr>)
   \<and> Picks \<lparr>subConns = [scA, scB, scC], next = 1\<rparr> [noKey, noKey, noKey] =
       Inr ([picked scB, picked scC, picked scA], \<lparr>subConns = [scA, scB, scC], next = 1\<rparr>)"
proof -
  let ?p = "\<lparr>subConns = [scA, scB, scC], next = 1\<rparr>"
  have c: "cursorInRange ?p" by (simp add: cursorInRange_def)
  have k: "withoutKey noKey" by (rule noKey_withoutKey)
  have ks: "\<forall>r \<in> set [noKey, noKey, noKey]. withoutKey r" by (simp add: k)
  have l: "length [noKey, noKey, noKey] = length (subConns ?p)" by simp
  have d: "distinct (subConns ?p)"
    by (simp add: scA_def scB_def scC_def mkSubConn_def)
  have r: "rotate (nat 1) [scA, scB, scC] = [scB, scC, scA]"
    by (simp add: rotate1_def numeral_3_eq_3)
  from Pick_round_robin [OF c, of noKey "[noKey, noKey, noKey]"] c k ks l d r
  show ?thesis by (simp del: Picks.simps)
qed

lemma matching_empty_iff: "matching k scs = [] \<longleftrightarrow> k \<notin> set (map addrOf scs)"
  by (auto simp: matching_def filter_empty_conv)

lemma matchLoop_unmatched: "k \<notin> set (map addrOf scs) \<Longrightarrow> matchLoop k scs None = None"
  by (simp add: matchLoop_matching matching_empty_iff)

lemma matchLoop_matched:
  "matching k scs \<noteq> [] \<Longrightarrow> matchLoop k scs None = Some (last (matching k scs))"
  by (simp add: matchLoop_matching)

lemma last_matching:
  assumes "matching k scs \<noteq> []"
  shows "last (matching k scs) \<in> set scs \<and> addrOf (last (matching k scs)) = k"
proof -
  have "last (matching k scs) \<in> set (matching k scs)" using assms by (rule last_in_set)
  then show ?thesis by (simp add: matching_def)
qed

lemma Pick_returns_nil_error: "Pick p pinfo = Inr ((r, e), p') \<Longrightarrow> e = None"
  by (auto simp: Pick_def split: prod.splits bool.splits sum.splits)

lemma PickValue_returns_nil_error: "PickValue p pinfo = Inr ((r, e), p') \<Longrightarrow> e = None"
  by (auto simp: PickValue_def split: prod.splits bool.splits sum.splits)

lemma Pick_inRange:
  assumes "cursorInRange p"
  shows "\<exists>r p'. Pick p pinfo = Inr ((r, None), p') \<and> subConns p' = subConns p \<and> cursorInRange p'"
proof (cases "stickyKeyFromContext (Ctx pinfo) OverWriteKeyName")
  case (Pair k present)
  show ?thesis
  proof (cases present)
    case True
    with Pair assms show ?thesis by (simp add: Pick_key)
  next
    case False
    with Pair have "withoutKey pinfo" by (simp add: withoutKey_def)
    from Pick_noKey [OF this assms] cursorInRange_step [OF assms]
    show ?thesis by (simp add: picked_def)
  qed
qed

lemma PickValue_inRange:
  assumes "cursorInRange p"
  shows "\<exists>r p'. PickValue p pinfo = Inr ((r, None), p')"
proof (cases "stringValue (Ctx pinfo) OverWriteKeyName")
  case (Pair k present)
  show ?thesis
  proof (cases present)
    case True
    with Pair show ?thesis by (simp add: PickValue_key)
  next
    case False
    with Pair show ?thesis
      by (simp add: PickValue_def roundRobin_inRange [OF assms])
  qed
qed

lemma Picks_inRange:
  "cursorInRange p \<Longrightarrow>
   \<exists>rs p'. Picks p reqs = Inr (rs, p') \<and> length rs = length reqs \<and>
            subConns p' = subConns p \<and> cursorInRange p'"
proof (induction reqs arbitrary: p)
  case Nil
  then show ?case by simp
next
  case (Cons r reqs)
  from Pick_inRange [OF Cons.prems, of r] obtain x p1 where
    p1: "Pick p r = Inr ((x, None), p1)" "subConns p1 = subConns p" "cursorInRange p1"
    by blast
  from Cons.IH [OF p1(3)] obtain rs p2 where
    p2: "Picks p1 reqs = Inr (rs, p2)" "length rs = length reqs"
        "subConns p2 = subConns p1" "cursorInRange p2"
    by blast
  from p1 p2 show ?case by simp
qed

lemma collect_acc: "foldl (\<lambda>scs entry. scs @ [fst entry]) acc entries = acc @ map fst entries"
  by (induction entries arbitrary: acc) simp_all

lemma collect_map: "collect entries = map fst entries"
  by (simp add: collect_def collect_acc)

lemma scA_addr: "addrOf scA = ''10.0.0.1:443''"
  by (simp add: addrOf_def scA_def mkSubConn_def)

lemma scB_addr: "addrOf scB = ''10.0.0.2:443''"
  by (simp add: addrOf_def scB_def mkSubConn_def)

lemma scC_addr: "addrOf scC = ''10.0.0.3:443''"
  by (simp add: addrOf_def scC_def mkSubConn_def)

lemma scA'_addr: "addrOf scA' = ''10.0.0.1:443''"
  by (simp add: addrOf_def scA'_def mkSubConn_def)

lemma scA_neq_scA': "scA \<noteq> scA'"
  by (simp add: scA_def scA'_def mkSubConn_def)

text \<open>
  Claim C1 against the code. The claim asks that a request whose affinity key is present and
  equals no handle's address be served as a plain round-robin request. With the snapshot
  A, B, C and the cursor at B, a request without key gets B and moves the cursor to C; a
  request with the unmatched key \<open>10.0.0.9:443\<close> gets no handle (\<open>nil\<close>) with a
  \<open>nil\<close> error, and the cursor stays at B. The loop over the snapshot leaves \<open>chosenSc\<close>
  at its zero value and nothing after it treats that case, although \<open>PickResult\<close> asks
  for a handle returned by \<open>NewSubConn\<close> and the comment of \<open>Pick\<close> names two outcomes
  only, the overwritten address or the regular round-robin.
\<close>

theorem Pick_unmatched_key_returns_nil:
  "stickyKeyFromContext (Ctx (withKey ''10.0.0.9:443'')) OverWriteKeyName = (''10.0.0.9:443'', True)
   \<and> ''10.0.0.9:443'' \<notin> set (map addrOf [scA, scB, scC])
   \<and> Pick \<lparr>subConns = [scA, scB, scC], next = 1\<rparr> noKey =
       Inr ((\<lparr>SubConn = Some scB\<rparr>, None), \<lparr>subConns = [scA, scB, scC], next = 2\<rparr>)
   \<and> Pick \<lparr>subConns = [scA, scB, scC], next = 1\<rparr> (withKey ''10.0.0.9:443'') =
       Inr ((\<lparr>SubConn = None\<rparr>, None), \<lparr>subConns = [scA, scB, scC], next = 1\<rparr>)
   \<and> PickValue \<lparr>subConns = [scA, scB, scC], next = 1\<rparr> (withKey ''10.0.0.9:443'') =
       Inr ((\<lparr>SubConn = None\<rparr>, None), \<lparr>subConns = [scA, scB, scC], next = 1\<rparr>)
   \<and> Pick \<lparr>subConns = [scA, scB, scC], next = 1\<rparr> (withKey ''10.0.0.9:443'') \<noteq>
       Pick \<lparr>subConns = [scA, scB, scC], next = 1\<rparr> noKey"
proof -
  let ?p = "\<lparr>subConns = [scA, scB, scC], next = 1\<rparr>"
  have k: "stickyKeyFromContext (Ctx (withKey ''10.0.0.9:443'')) OverWriteKeyName =
           (''10.0.0.9:443'', True)"
    by (rule sticky_withKey)
  have v: "stringValue (Ctx (withKey ''10.0.0.9:443'')) OverWriteKeyName = (''10.0.0.9:443'', True)"
    by (rule stringValue_withKey)
  have n: "''10.0.0.9:443'' \<notin> set (map addrOf [scA, scB, scC])"
    by (simp add: scA_addr scB_addr scC_addr)
  have c: "cursorInRange ?p" by (simp add: cursorInRange_def)
  have a: "Pick ?p noKey = Inr ((\<lparr>SubConn = Some scB\<rparr>, None), \<lparr>subConns = [scA, scB, scC], next = 2\<rparr>)"
    using Pick_noKey [OF noKey_withoutKey c] by (simp add: picked_def)
  have b: "Pick ?p (withKey ''10.0.0.9:443'') = Inr ((\<lparr>SubConn = None\<rparr>, None), ?p)"
    using Pick_key [OF k, of ?p] matchLoop_unmatched [OF n] by simp
  have b': "PickValue ?p (withKey ''10.0.0.9:443'') = Inr ((\<lparr>SubConn = None\<rparr>, None), ?p)"
    using PickValue_key [OF v, of ?p] matchLoop_unmatched [OF n] by simp
  have "Pick ?p (withKey ''10.0.0.9:443'') \<noteq> Pick ?p noKey"
    unfolding a b by simp
  with k n a b b' show ?thesis by blast
qed

text \<open>
  Claim C3, as stated, fails for a handle that shares its address with a later handle of
  the snapshot: with the snapshot A, B, A' where A and A' have one address, a request with
  that address as key gets A', not A.
\<close>

theorem Pick_affinity_first_of_two_counterexample:
  "scA \<in> set [scA, scB, scA']
   \<and> addrOf scA = ''10.0.0.1:443''
   \<and> stickyKeyFromContext (Ctx (withKey ''10.0.0.1:443'')) OverWriteKeyName = (''10.0.0.1:443'', True)
   \<and> Pick \<lparr>subConns = [scA, scB, scA'], next = 1\<rparr> (withKey ''10.0.0.1:443'') =
       Inr ((\<lparr>SubConn = Some scA'\<rparr>, None), \<lparr>subConns = [scA, scB, scA'], next = 1\<rparr>)
   \<and> scA' \<noteq> scA"
proof -
  let ?p = "\<lparr>subConns = [scA, scB, scA'], next = 1\<rparr>"
  have k: "stickyKeyFromContext (Ctx (withKey ''10.0.0.1:443'')) OverWriteKeyName =
           (''10.0.0.1:443'', True)"
    by (rule sticky_withKey)
  have m: "matching ''10.0.0.1:443'' [scA, scB, scA'] = [scA, scA']"
    by (simp add: matching_def scA_addr scB_addr scA'_addr)
  have "Pick ?p (withKey ''10.0.0.1:443'') = Inr ((\<lparr>SubConn = Some scA'\<rparr>, None), ?p)"
    using Pick_key [OF k, of ?p] by (simp add: matchLoop_matching m)
  with k scA_addr scA_neq_scA' show ?thesis by simp
qed

text \<open>
  Claim C3, amended. For every snapshot, every cursor value and every request whose
  affinity key equals (byte for byte) the address of some handle \<open>H\<close> of the snapshot,
  \<open>Pick\<close> returns a handle of the snapshot with that address, namely the last such
  handle in snapshot order, which is \<open>H\<close> whenever no other handle has that address;
  it leaves the cursor unchanged, so that the requests that follow get the handles they
  would have got had the affinity request not been made.
\<close>

theorem Pick_affinity_match:
  assumes "stickyKeyFromContext (Ctx pinfo) OverWriteKeyName = (k, True)"
    and "H \<in> set (subConns p)" and "addrOf H = k"
  shows "Pick p pinfo = Inr (picked (last (matching k (subConns p))), p)
         \<and> last (matching k (subConns p)) \<in> set (subConns p)
         \<and> addrOf (last (matching k (subConns p))) = k
         \<and> ((\<forall>sc \<in> set (subConns p). addrOf sc = k \<longrightarrow> sc = H) \<longrightarrow>
              Pick p pinfo = Inr (picked H, p))
         \<and> Picks p (pinfo # rest) =
             (case Picks p rest of
                Inl e \<Rightarrow> Inl e
              | Inr (rs, p') \<Rightarrow> Inr (picked (last (matching k (subConns p))) # rs, p'))"
proof -
  let ?L = "last (matching k (subConns p))"
  have ne: "matching k (subConns p) \<noteq> []"
    using assms(2,3) by (auto simp: matching_def filter_empty_conv)
  have pick: "Pick p pinfo = Inr (picked ?L, p)"
    by (simp add: Pick_key [OF assms(1)] matchLoop_matched [OF ne] picked_def)
  have mem: "?L \<in> set (subConns p) \<and> addrOf ?L = k"
    by (rule last_matching [OF ne])
  have uniq: "(\<forall>sc \<in> set (subConns p). addrOf sc = k \<longrightarrow> sc = H) \<longrightarrow>
              Pick p pinfo = Inr (picked H, p)"
  proof
    assume "\<forall>sc \<in> set (subConns p). addrOf sc = k \<longrightarrow> sc = H"
    with mem have "?L = H" by blast
    with pick show "Pick p pinfo = Inr (picked H, p)" by simp
  qed
  have frame: "Picks p (pinfo # rest) =
             (case Picks p rest of
                Inl e \<Rightarrow> Inl e
              | Inr (rs, p') \<Rightarrow> Inr (picked ?L # rs, p'))"
    by (simp add: pick)
  from pick mem uniq frame show ?thesis by blast
qed

theorem Pick_affinity_match_witness:
  "stickyKeyFromContext (Ctx (withKey ''10.0.0.3:443'')) OverWriteKeyName = (''10.0.0.3:443'', True)
   \<and> scC \<in> set (subConns \<lparr>subConns = [scA, scB, scC], next = 1\<rparr>)
   \<and> addrOf scC = ''10.0.0.3:443''
   \<and> matching ''10.0.0.3:443'' (subConns \<lparr>subConns = [scA, scB, scC], next = 1\<rparr>) = [scC]
   \<and> Pick \<lparr>subConns = [scA, scB, scC], next = 1\<rparr> (withKey ''10.0.0.3:443'') =
       Inr (picked scC, \<lparr>subConns = [scA, scB, scC], next = 1\<rparr>)
   \<and> Picks \<lparr>subConns = [scA, scB, scC], next = 1\<rparr> [withKey ''10.0.0.3:443'', noKey] =
       Inr ([picked scC, picked scB], \<lparr>subConns = [scA, scB, scC], next = 2\<rparr>)"
proof -
  let ?p = "\<lparr>subConns = [scA, scB, scC], next = 1\<rparr>"
  have k: "stickyKeyFromContext (Ctx (withKey ''10.0.0.3:443'')) OverWriteKeyName =
           (''10.0.0.3:443'', True)"
    by (rule sticky_withKey)
  have h: "scC \<in> set (subConns ?p)" by simp
  have u: "\<forall>sc \<in> set (subConns ?p). addrOf sc = ''10.0.0.3:443'' \<longrightarrow> sc = scC"
    by (simp add: scA_addr scB_addr)
  have m: "matching ''10.0.0.3:443'' (subConns ?p) = [scC]"
    by (simp add: matching_def scA_addr scB_addr scC_addr)
  have c: "cursorInRange ?p" by (simp add: cursorInRange_def)
  have n: "Picks ?p [noKey] = Inr ([picked scB], \<lparr>subConns = [scA, scB, scC], next = 2\<rparr>)"
    using Pick_noKey [OF noKey_withoutKey c] by simp
  have r: "Pick ?p (withKey ''10.0.0.3:443'') = Inr (picked scC, ?p)
      \<and> Picks ?p [withKey ''10.0.0.3:443'', noKey] =
          Inr ([picked scC, picked scB], \<lparr>subConns = [scA, scB, scC], next = 2\<rparr>)"
    using Pick_affinity_match [OF k h scC_addr, of "[noKey]"] u
    by (simp only: m n last.simps sum.case prod.case) simp
  from k h scC_addr m r show ?thesis by blast
qed

text \<open>
  Claim C10. When the affinity key of a request equals the addresses of two or more handles
  of the snapshot, \<open>Pick\<close> returns the last of them in snapshot order.
\<close>

theorem Pick_last_match_wins:
  assumes "stickyKeyFromContext (Ctx pinfo) OverWriteKeyName = (k, True)"
    and "2 \<le> length (matching k (subConns p))"
  shows "Pick p pinfo = Inr (picked (last (matching k (subConns p))), p)"
proof -
  from assms(2) have "matching k (subConns p) \<noteq> []" by auto
  then show ?thesis
    by (simp add: Pick_key [OF assms(1)] matchLoop_matched picked_def)
qed

theorem Pick_last_match_wins_witness:
  "stickyKeyFromContext (Ctx (withKey ''10.0.0.1:443'')) OverWriteKeyName = (''10.0.0.1:443'', True)
   \<and> 2 \<le> length (matching ''10.0.0.1:443'' (subConns \<lparr>subConns = [scA, scA', scB], next = 0\<rparr>))
   \<and> matching ''10.0.0.1:443'' (subConns \<lparr>subConns = [scA, scA', scB], next = 0\<rparr>) = [scA, scA']
   \<and> Pick \<lparr>subConns = [scA, scA', scB], next = 0\<rparr> (withKey ''10.0.0.1:443'') =
       Inr (picked scA', \<lparr>subConns = [scA, scA', scB], next = 0\<rparr>)"
proof -
  let ?p = "\<lparr>subConns = [scA, scA', scB], next = 0\<rparr>"
  have k: "stickyKeyFromContext (Ctx (withKey ''10.0.0.1:443'')) OverWriteKeyName =
           (''10.0.0.1:443'', True)"
    by (rule sticky_withKey)
  have m: "matching ''10.0.0.1:443'' (subConns ?p) = [scA, scA']"
    by (simp add: matching_def scA_addr scB_addr scA'_addr)
  have l: "2 \<le> length (matching ''10.0.0.1:443'' (subConns ?p))"
    by (simp only: m) simp
  have r: "Pick ?p (withKey ''10.0.0.1:443'') = Inr (picked scA', ?p)"
    using Pick_last_match_wins [OF k l] by (simp only: m) simp
  from k l m r show ?thesis by blast
qed

text \<open>
  Claim C5. When the Ready set is empty at build time, \<open>Build\<close> returns the error picker
  and no round-robin picker: every \<open>Pick\<close> on it returns the no-connection-available
  error, and none panics.
\<close>

theorem Build_empty_errPicker:
  assumes "ReadySCs info = []"
  shows "Build info rnd = NewErrPicker ErrNoSubConnAvailable
         \<and> (\<forall>pinfo. PickerPick (Build info rnd) pinfo =
               Inr ((\<lparr>SubConn = None\<rparr>, Some ErrNoSubConnAvailable), Build info rnd))"
  using assms by (simp add: Build_def NewErrPicker_def)

theorem Build_empty_errPicker_witness:
  "ReadySCs \<lparr>ReadySCs = []\<rparr> = []
   \<and> Build \<lparr>ReadySCs = []\<rparr> 5 = errPicker ErrNoSubConnAvailable
   \<and> PickerPick (Build \<lparr>ReadySCs = []\<rparr> 5) noKey =
       Inr ((\<lparr>SubConn = None\<rparr>, Some ErrNoSubConnAvailable), Build \<lparr>ReadySCs = []\<rparr> 5)
   \<and> PickerPick (Build \<lparr>ReadySCs = []\<rparr> 5) (withKey ''10.0.0.1:443'') =
       Inr ((\<lparr>SubConn = None\<rparr>, Some ErrNoSubConnAvailable), Build \<lparr>ReadySCs = []\<rparr> 5)"
proof -
  have e: "ReadySCs \<lparr>ReadySCs = []\<rparr> = []" by simp
  from Build_empty_errPicker [OF e, of 5] e show ?thesis
    by (simp only: NewErrPicker_def) simp
qed

text \<open>
  Claim C8. Whatever the request, a \<open>Pick\<close> of the round-robin picker that returns does
  so with a \<open>nil\<close> error, and with the cursor in range it does return. In particular,
  when the affinity key is present and equals no handle's address, the result is a \<open>nil\<close>
  handle with a \<open>nil\<close> error, not the no-connection-available error. Both versions of
  \<open>Pick\<close> behave so.
\<close>

theorem Pick_error_always_nil:
  "(\<forall>r e p'. Pick p pinfo = Inr ((r, e), p') \<longrightarrow> e = None)
   \<and> (\<forall>r e p'. PickValue p pinfo = Inr ((r, e), p') \<longrightarrow> e = None)
   \<and> (cursorInRange p \<longrightarrow>
        (\<exists>r p'. Pick p pinfo = Inr ((r, None), p')) \<and>
        (\<exists>r p'. PickValue p pinfo = Inr ((r, None), p')))
   \<and> (stickyKeyFromContext (Ctx pinfo) OverWriteKeyName = (k, True) \<and>
        k \<notin> set (map addrOf (subConns p)) \<longrightarrow>
        Pick p pinfo = Inr ((\<lparr>SubConn = None\<rparr>, None), p))
   \<and> (stringValue (Ctx pinfo) OverWriteKeyName = (k, True) \<and>
        k \<notin> set (map addrOf (subConns p)) \<longrightarrow>
        PickValue p pinfo = Inr ((\<lparr>SubConn = None\<rparr>, None), p))"
proof -
  have one: "\<forall>r e p'. Pick p pinfo = Inr ((r, e), p') \<longrightarrow> e = None"
    using Pick_returns_nil_error by blast
  have two: "\<forall>r e p'. PickValue p pinfo = Inr ((r, e), p') \<longrightarrow> e = None"
    using PickValue_returns_nil_error by blast
  have three: "cursorInRange p \<longrightarrow>
        (\<exists>r p'. Pick p pinfo = Inr ((r, None), p')) \<and>
        (\<exists>r p'. PickValue p pinfo = Inr ((r, None), p'))"
    using Pick_inRange [of p pinfo] PickValue_inRange [of p pinfo] by blast
  have four: "stickyKeyFromContext (Ctx pinfo) OverWriteKeyName = (k, True) \<and>
        k \<notin> set (map addrOf (subConns p)) \<longrightarrow>
        Pick p pinfo = Inr ((\<lparr>SubConn = None\<rparr>, None), p)"
    by (simp add: Pick_key matchLoop_unmatched)
  have five: "stringValue (Ctx pinfo) OverWriteKeyName = (k, True) \<and>
        k \<notin> set (map addrOf (subConns p)) \<longrightarrow>
        PickValue p pinfo = Inr ((\<lparr>SubConn = None\<rparr>, None), p)"
    by (simp add: PickValue_key matchLoop_unmatched)
  from one two three four five show ?thesis by blast
qed

theorem Pick_error_always_nil_witness:
  "cursorInRange \<lparr>subConns = [scA, scB], next = 0\<rparr>
   \<and> stickyKeyFromContext (Ctx (withKey ''10.0.0.7:443'')) OverWriteKeyName = (''10.0.0.7:443'', True)
   \<and> stringValue (Ctx (withKey ''10.0.0.7:443'')) OverWriteKeyName = (''10.0.0.7:443'', True)
   \<and> ''10.0.0.7:443'' \<notin> set (map addrOf (subConns \<lparr>subConns = [scA, scB], next = 0\<rparr>))
   \<and> Pick \<lparr>subConns = [scA, scB], next = 0\<rparr> (withKey ''10.0.0.7:443'') =
       Inr ((\<lparr>SubConn = None\<rparr>, None), \<lparr>subConns = [scA, scB], next = 0\<rparr>)
   \<and> PickValue \<lparr>subConns = [scA, scB], next = 0\<rparr> (withKey ''10.0.0.7:443'') =
       Inr ((\<lparr>SubConn = None\<rparr>, None), \<lparr>subConns = [scA, scB], next = 0\<rparr>)
   \<and> Pick \<lparr>subConns = [scA, scB], next = 0\<rparr> (withKey ''10.0.0.7:443'') \<noteq>
       Inr ((\<lparr>SubConn = None\<rparr>, Some ErrNoSubConnAvailable), \<lparr>subConns = [scA, scB], next = 0\<rparr>)"
proof -
  let ?p = "\<lparr>subConns = [scA, scB], next = 0\<rparr>"
  have c: "cursorInRange ?p" by (simp add: cursorInRange_def)
  have k: "stickyKeyFromContext (Ctx (withKey ''10.0.0.7:443'')) OverWriteKeyName =
           (''10.0.0.7:443'', True)"
    by (rule sticky_withKey)
  have v: "stringValue (Ctx (withKey ''10.0.0.7:443'')) OverWriteKeyName = (''10.0.0.7:443'', True)"
    by (rule stringValue_withKey)
  have n: "''10.0.0.7:443'' \<notin> set (map addrOf (subConns ?p))"
    by (simp add: scA_addr scB_addr)
  from Pick_error_always_nil [of ?p "withKey ''10.0.0.7:443''" "''10.0.0.7:443''"] c k v n
  show ?thesis by blast
qed

text \<open>
  Claim C9. A round-robin picker built over a non-empty Ready set of \<open>N\<close> handles has its
  cursor in \<open>[0, N)\<close> after \<open>Build\<close> and after every \<open>Pick\<close>: no sequence of
  requests makes a \<open>Pick\<close> panic on the indexing of the snapshot, and the snapshot never
  changes.
\<close>

theorem Build_cursor_in_range:
  assumes "ReadySCs info \<noteq> []"
  shows "\<exists>p. Build info rnd = roundRobinPicker p
           \<and> subConns p = map fst (ReadySCs info)
           \<and> 0 \<le> next p \<and> next p < int (length (subConns p))
           \<and> (\<forall>reqs. \<exists>rs p'. Picks p reqs = Inr (rs, p')
                  \<and> length rs = length reqs
                  \<and> subConns p' = subConns p
                  \<and> 0 \<le> next p' \<and> next p' < int (length (subConns p')))"
proof -
  let ?scs = "map fst (ReadySCs info)"
  let ?p = "\<lparr>subConns = ?scs, next = Intn rnd (length ?scs)\<rparr>"
  have b: "Build info rnd = roundRobinPicker ?p"
    using assms by (simp add: Build_def collect_map Let_def)
  have pos: "0 < length ?scs" using assms by simp
  have c: "cursorInRange ?p"
    using pos by (simp add: cursorInRange_def Intn_def)
  have "\<forall>reqs. \<exists>rs p'. Picks ?p reqs = Inr (rs, p')
                  \<and> length rs = length reqs
                  \<and> subConns p' = subConns ?p
                  \<and> 0 \<le> next p' \<and> next p' < int (length (subConns p'))"
    using Picks_inRange [OF c] unfolding cursorInRange_def by blast
  with b c show ?thesis unfolding cursorInRange_def by (intro exI [of _ ?p]) simp
qed

theorem Build_cursor_in_range_witness:
  "ReadySCs \<lparr>ReadySCs = [(scA, \<lparr>Address = ''10.0.0.1:443''\<rparr>), (scB, \<lparr>Address = ''10.0.0.2:443''\<rparr>),
                         (scC, \<lparr>Address = ''10.0.0.3:443''\<rparr>)]\<rparr> \<noteq> []
   \<and> Build \<lparr>ReadySCs = [(scA, \<lparr>Address = ''10.0.0.1:443''\<rparr>), (scB, \<lparr>Address = ''10.0.0.2:443''\<rparr>),
                         (scC, \<lparr>Address = ''10.0.0.3:443''\<rparr>)]\<rparr> 7 =
       roundRobinPicker \<lparr>subConns = [scA, scB, scC], next = 1\<rparr>
   \<and> (\<exists>rs p'. Picks \<lparr>subConns = [scA, scB, scC], next = 1\<rparr> [noKey, withKey ''10.0.0.3:443'', noKey] =
          Inr (rs, p') \<and> 0 \<le> next p' \<and> next p' < 3)"
proof -
  let ?info = "\<lparr>ReadySCs = [(scA, \<lparr>Address = ''10.0.0.1:443''\<rparr>), (scB, \<lparr>Address = ''10.0.0.2:443''\<rparr>),
                         (scC, \<lparr>Address = ''10.0.0.3:443''\<rparr>)]\<rparr>"
  have ne: "ReadySCs ?info \<noteq> []" by simp
  have b: "Build ?info 7 = roundRobinPicker \<lparr>subConns = [scA, scB, scC], next = 1\<rparr>"
    by (simp add: Build_def collect_def Intn_def)
  from Build_cursor_in_range [OF ne, of 7] obtain p where
    p: "Build ?info 7 = roundRobinPicker p"
       "\<forall>reqs. \<exists>rs p'. Picks p reqs = Inr (rs, p')
                  \<and> length rs = length reqs
                  \<and> subConns p' = subConns p
                  \<and> 0 \<le> next p' \<and> next p' < int (length (subConns p'))"
    by blast
  from p(1) b have eq: "p = \<lparr>subConns = [scA, scB, scC], next = 1\<rparr>" by simp
  from p(2) [rule_format, of "[noKey, withKey ''10.0.0.3:443'', noKey]"]
  have "\<exists>rs p'. Picks \<lparr>subConns = [scA, scB, scC], next = 1\<rparr> [noKey, withKey ''10.0.0.3:443'', noKey] =
          Inr (rs, p') \<and> 0 \<le> next p' \<and> next p' < 3"
    unfolding eq by (auto simp del: Picks.simps)
  with ne b show ?thesis by blast
qed


end
